theory Spec2Isabelle
  imports Main "HOL-Library.Word" "HOL-Library.Signed_Division" "HOL-Library.Monad_Syntax"
begin

section \<open>Data model of main.cpp\<close>

text \<open>
  \<^verbatim>\<open>typedef uint8_t Cell;\<close>  A cell is one byte; 0 is dead, anything else is alive.
\<close>

type_synonym Cell = "8 word"

text \<open>raylib's \<^verbatim>\<open>Color\<close>: four unsigned bytes r, g, b, a.\<close>

record Color =
  r :: "8 word"
  g :: "8 word"
  b :: "8 word"
  a :: "8 word"

text \<open>
  \<^verbatim>\<open>BLACK\<close> is a macro of raylib.h, \<^verbatim>\<open>CLITERAL(Color){ 0, 0, 0, 255 }\<close>; the foreground
  colour is the literal \<^verbatim>\<open>(Color){ 0, 255, 200, 255 }\<close> written out in main.cpp (the
  global \<^verbatim>\<open>CYAN\<close> has the same value).
\<close>

definition BLACK :: Color where
  "BLACK = \<lparr>r = 0, g = 0, b = 0, a = 255\<rparr>"

definition CYAN :: Color where
  "CYAN = \<lparr>r = 0, g = 255, b = 200, a = 255\<rparr>"

text \<open>
  The grid constants. C's \<^verbatim>\<open>int\<close> is modelled by \<^typ>\<open>int\<close>: with these constants
  no value computed by the program exceeds \<open>GRID_SIZE = 10000\<close>, far below \<open>2^31\<close>.
\<close>

definition GRID_WIDTH :: int where
  "GRID_WIDTH = 100"

definition GRID_HEIGHT :: int where
  "GRID_HEIGHT = 100"

definition GRID_SIZE :: int where
  "GRID_SIZE = GRID_WIDTH * GRID_HEIGHT"

text \<open>
  The three global buffers. The functions below take the two grid constants as
  explicit arguments \<open>W\<close> and \<open>H\<close>, so that every result is stated for all grid sizes;
  the program is the instance \<open>W = GRID_WIDTH\<close>, \<open>H = GRID_HEIGHT\<close>.
\<close>

record state =
  currentGen :: "Cell list"
  nextGen :: "Cell list"
  pixels :: "Color list"

text \<open>
  \<^verbatim>\<open>v[i]\<close> on a \<^verbatim>\<open>std::vector\<close> or an array is undefined outside \<open>[0, size)\<close>.
  The model makes each access checked: \<open>None\<close> stands for an out-of-bounds access.
\<close>

definition rd :: "'a list \<Rightarrow> int \<Rightarrow> 'a option" where
  "rd xs i = (if 0 \<le> i \<and> i < int (length xs) then Some (xs ! nat i) else None)"

definition wr :: "'a list \<Rightarrow> int \<Rightarrow> 'a \<Rightarrow> 'a list option" where
  "wr xs i v = (if 0 \<le> i \<and> i < int (length xs) then Some (xs[nat i := v]) else None)"

section \<open>GetIndex\<close>

text \<open>
  \<^verbatim>\<open>
  inline int GetIndex(int x, int y) {
      if (x < 0) x = GRID_WIDTH - 1;
      else if (x >= GRID_WIDTH) x = 0;
      if (y < 0) y = GRID_HEIGHT - 1;
      else if (y >= GRID_HEIGHT) y = 0;
      return y * GRID_WIDTH + x;
  }
  \<close>
\<close>

definition GetIndex :: "int \<Rightarrow> int \<Rightarrow> int \<Rightarrow> int \<Rightarrow> int" where
  "GetIndex W H x y =
     (let x' = (if x < 0 then W - 1 else if x \<ge> W then 0 else x);
          y' = (if y < 0 then H - 1 else if y \<ge> H then 0 else y)
      in y' * W + x')"

section \<open>UpdateGameOfLife\<close>

text \<open>
  C's \<^verbatim>\<open>%\<close> truncates towards zero: it is \<open>smod\<close> on \<^typ>\<open>int\<close>, not \<open>mod\<close>.

  The neighbour sum of lines 44-47. The bytes are promoted to \<^verbatim>\<open>int\<close> before they are
  added, so the sum does not wrap.
\<close>

definition neighbors :: "int \<Rightarrow> Cell list \<Rightarrow> int \<Rightarrow> int \<Rightarrow> int \<Rightarrow> int \<Rightarrow> int option" where
  "neighbors W cur y_offset y_up y_dn x = do {
     let x_left = (x - 1 + W) smod W;
     let x_right = (x + 1) smod W;
     c1 \<leftarrow> rd cur (y_up + x_left);
     c2 \<leftarrow> rd cur (y_up + x);
     c3 \<leftarrow> rd cur (y_up + x_right);
     c4 \<leftarrow> rd cur (y_offset + x_left);
     c5 \<leftarrow> rd cur (y_offset + x_right);
     c6 \<leftarrow> rd cur (y_dn + x_left);
     c7 \<leftarrow> rd cur (y_dn + x);
     c8 \<leftarrow> rd cur (y_dn + x_right);
     Some (uint c1 + uint c2 + uint c3 + uint c4 + uint c5 + uint c6 + uint c7 + uint c8)
   }"

text \<open>
  Lines 50-54: the value stored in \<^verbatim>\<open>nextGen[idx]\<close>; a C++ \<^verbatim>\<open>bool\<close> converts to the
  byte 1 or 0.
\<close>

definition next_cell :: "Cell \<Rightarrow> int \<Rightarrow> Cell" where
  "next_cell c n =
     (if c \<noteq> 0 then of_bool (n = 2 \<or> n = 3) else of_bool (n = 3))"

text \<open>Lines 57 and 70: \<^verbatim>\<open>v ? (Color){ 0, 255, 200, 255 } : BLACK\<close>.\<close>

definition cell_color :: "Cell \<Rightarrow> Color" where
  "cell_color v = (if v \<noteq> 0 then \<lparr>r = 0, g = 255, b = 200, a = 255\<rparr> else BLACK)"

text \<open>The body of the inner loop, lines 40-57.\<close>

definition cell_step :: "int \<Rightarrow> int \<Rightarrow> int \<Rightarrow> int \<Rightarrow> int \<Rightarrow> state \<Rightarrow> state option" where
  "cell_step W y_offset y_up y_dn x st = do {
     n \<leftarrow> neighbors W (currentGen st) y_offset y_up y_dn x;
     let idx = y_offset + x;
     c \<leftarrow> rd (currentGen st) idx;
     ng \<leftarrow> wr (nextGen st) idx (next_cell c n);
     v \<leftarrow> rd ng idx;
     px \<leftarrow> wr (pixels st) idx (cell_color v);
     Some (st\<lparr>nextGen := ng, pixels := px\<rparr>)
   }"

text \<open>\<^verbatim>\<open>for (int x = 0; x < GRID_WIDTH; x++)\<close>, entered at \<open>x\<close>.\<close>

function x_loop :: "int \<Rightarrow> int \<Rightarrow> int \<Rightarrow> int \<Rightarrow> int \<Rightarrow> state \<Rightarrow> state option" where
  "x_loop W y_offset y_up y_dn x st =
     (if x < W then
        (case cell_step W y_offset y_up y_dn x st of
           None \<Rightarrow> None
         | Some st' \<Rightarrow> x_loop W y_offset y_up y_dn (x + 1) st')
      else Some st)"
  by pat_completeness auto
termination
  by (relation "measure (\<lambda>(W, y_offset, y_up, y_dn, x, st). nat (W - x))") auto

text \<open>The body of the outer loop, lines 33-58.\<close>

definition row_step :: "int \<Rightarrow> int \<Rightarrow> int \<Rightarrow> state \<Rightarrow> state option" where
  "row_step W H y st =
     (let y_offset = y * W;
          y_up = ((y - 1 + H) smod H) * W;
          y_dn = ((y + 1) smod H) * W
      in x_loop W y_offset y_up y_dn 0 st)"

text \<open>\<^verbatim>\<open>for (int y = 0; y < GRID_HEIGHT; y++)\<close>, entered at \<open>y\<close>.\<close>

function y_loop :: "int \<Rightarrow> int \<Rightarrow> int \<Rightarrow> state \<Rightarrow> state option" where
  "y_loop W H y st =
     (if y < H then
        (case row_step W H y st of
           None \<Rightarrow> None
         | Some st' \<Rightarrow> y_loop W H (y + 1) st')
      else Some st)"
  by pat_completeness auto
termination
  by (relation "measure (\<lambda>(W, H, y, st). nat (H - y))") auto

text \<open>The whole function; its last statement is the copy \<^verbatim>\<open>currentGen = nextGen\<close>.\<close>

definition UpdateGameOfLife :: "int \<Rightarrow> int \<Rightarrow> state \<Rightarrow> state option" where
  "UpdateGameOfLife W H st =
     (case y_loop W H 0 st of
        None \<Rightarrow> None
      | Some st' \<Rightarrow> Some (st'\<lparr>currentGen := nextGen st'\<rparr>))"

text \<open>\<open>n\<close> consecutive calls, as the driver loop of \<^verbatim>\<open>main\<close> makes them.\<close>

fun steps :: "nat \<Rightarrow> int \<Rightarrow> int \<Rightarrow> state \<Rightarrow> state option" where
  "steps 0 W H st = Some st"
| "steps (Suc n) W H st =
     (case UpdateGameOfLife W H st of
        None \<Rightarrow> None
      | Some st' \<Rightarrow> steps n W H st')"

section \<open>Start-up: the globals and the seeding loop of main\<close>

text \<open>
  \<^verbatim>\<open>
  std::vector<Cell> currentGen(GRID_SIZE, 0);
  std::vector<Cell> nextGen(GRID_SIZE, 0);
  Color pixels[GRID_SIZE];
  \<close>
  A global array is zero-initialised. The buffers have \<open>GRID_SIZE = W * H\<close> entries;
  \<open>nat\<close> only converts the type, since the program exists for no negative \<open>GRID_SIZE\<close>
  (see \<open>well_formed\<close> below).
\<close>

definition globals :: "int \<Rightarrow> int \<Rightarrow> state" where
  "globals W H =
     \<lparr>currentGen = replicate (nat (W * H)) 0,
      nextGen = replicate (nat (W * H)) 0,
      pixels = replicate (nat (W * H)) \<lparr>r = 0, g = 0, b = 0, a = 0\<rparr>\<rparr>"

text \<open>
  Lines 68-71. \<^verbatim>\<open>GetRandomValue(0, 100)\<close> is raylib's; \<open>rnd i\<close> is the value its call in
  iteration \<open>i\<close> returns.
\<close>

definition seed_step :: "(int \<Rightarrow> int) \<Rightarrow> int \<Rightarrow> state \<Rightarrow> state option" where
  "seed_step rnd i st = do {
     cg \<leftarrow> wr (currentGen st) i (of_bool (rnd i > 85));
     v \<leftarrow> rd cg i;
     px \<leftarrow> wr (pixels st) i (cell_color v);
     Some (st\<lparr>currentGen := cg, pixels := px\<rparr>)
   }"

function seed_loop :: "(int \<Rightarrow> int) \<Rightarrow> int \<Rightarrow> int \<Rightarrow> state \<Rightarrow> state option" where
  "seed_loop rnd n i st =
     (if i < n then
        (case seed_step rnd i st of
           None \<Rightarrow> None
         | Some st' \<Rightarrow> seed_loop rnd n (i + 1) st')
      else Some st)"
  by pat_completeness auto
termination
  by (relation "measure (\<lambda>(rnd, n, i, st). nat (n - i))") auto

definition seed :: "int \<Rightarrow> int \<Rightarrow> (int \<Rightarrow> int) \<Rightarrow> state option" where
  "seed W H rnd = seed_loop rnd (W * H) 0 (globals W H)"

section \<open>Building the program for given dimensions\<close>





section \<open>Specification-level notions\<close>

text \<open>
  The eight neighbour coordinates as the specification words them: the x-coordinates
  \<open>(x-1+W) mod W\<close>, \<open>x\<close>, \<open>(x+1) mod W\<close> combined with the y-coordinates
  \<open>(y-1+H) mod H\<close>, \<open>y\<close>, \<open>(y+1) mod H\<close>, without the centre combination.
\<close>

definition neighbor_coords :: "int \<Rightarrow> int \<Rightarrow> int \<Rightarrow> int \<Rightarrow> (int \<times> int) list" where
  "neighbor_coords W H x y =
     (let xl = (x - 1 + W) mod W; xr = (x + 1) mod W;
          yu = (y - 1 + H) mod H; yd = (y + 1) mod H
      in [(xl, yu), (x, yu), (xr, yu), (xl, y), (xr, y), (xl, yd), (x, yd), (xr, yd)])"

text \<open>Row-major addressing: the cell at \<open>(x, y)\<close> is entry \<open>y * W + x\<close>.\<close>

definition cell_at :: "int \<Rightarrow> Cell list \<Rightarrow> int \<times> int \<Rightarrow> Cell" where
  "cell_at W cur p = cur ! nat (snd p * W + fst p)"

text \<open>The live-neighbour count of the specification: the sum of the eight cell values.\<close>

definition neighbor_sum :: "int \<Rightarrow> int \<Rightarrow> Cell list \<Rightarrow> int \<Rightarrow> int \<Rightarrow> int" where
  "neighbor_sum W H cur x y = (\<Sum>p\<leftarrow>neighbor_coords W H x y. uint (cell_at W cur p))"

text \<open>The next generation as a function of the current one, cell by cell.\<close>

definition gen_next :: "int \<Rightarrow> int \<Rightarrow> Cell list \<Rightarrow> Cell list" where
  "gen_next W H cur =
     map (\<lambda>i. next_cell (cur ! i) (neighbor_sum W H cur (int i mod W) (int i div W)))
       [0..<length cur]"

text \<open>Positive dimensions and three buffers of \<open>W * H\<close> entries each.\<close>

definition size_ok :: "int \<Rightarrow> int \<Rightarrow> state \<Rightarrow> bool" where
  "size_ok W H st \<longleftrightarrow>
     0 < W \<and> 0 < H \<and> int (length (currentGen st)) = W * H \<and>
     int (length (nextGen st)) = W * H \<and> int (length (pixels st)) = W * H"

text \<open>Loop invariant: the entries below \<open>k\<close> of \<^verbatim>\<open>nextGen\<close> and \<^verbatim>\<open>pixels\<close> are final.\<close>

definition filled :: "Cell list \<Rightarrow> nat \<Rightarrow> state \<Rightarrow> bool" where
  "filled G k st \<longleftrightarrow>
     (\<forall>i<k. nextGen st ! i = G ! i \<and> pixels st ! i = cell_color (G ! i))"

text \<open>
  The indices at which one pass of the inner loop body reads \<^verbatim>\<open>currentGen\<close>
  (lines 45-47 and 50) and writes \<^verbatim>\<open>nextGen\<close> and \<^verbatim>\<open>pixels\<close> (lines 51-57), with
  \<open>y_offset\<close>, \<open>y_up\<close>, \<open>y_dn\<close>, \<open>x_left\<close> and \<open>x_right\<close> as lines 33-41 compute them.
\<close>

definition step_indices :: "int \<Rightarrow> int \<Rightarrow> int \<Rightarrow> int \<Rightarrow> int list" where
  "step_indices W H x y =
     (let y_offset = y * W;
          y_up = ((y - 1 + H) smod H) * W;
          y_dn = ((y + 1) smod H) * W;
          x_left = (x - 1 + W) smod W;
          x_right = (x + 1) smod W
      in [y_up + x_left, y_up + x, y_up + x_right,
          y_offset + x_left, y_offset + x_right,
          y_dn + x_left, y_dn + x, y_dn + x_right,
          y_offset + x])"

definition in_range :: "int \<Rightarrow> int \<Rightarrow> bool" where
  "in_range n i \<longleftrightarrow> 0 \<le> i \<and> i < n"

text \<open>Every cell holds 0 or 1, as the seeding loop and the update both store it.\<close>

definition binary :: "Cell list \<Rightarrow> bool" where
  "binary cur \<longleftrightarrow> list_all (\<lambda>c. c = 0 \<or> c = 1) cur"

text \<open>
  The live-neighbour count of the glossary: how many of the eight wrapped neighbours
  are alive (nonzero).
\<close>

definition live_neighbors :: "int \<Rightarrow> int \<Rightarrow> Cell list \<Rightarrow> int \<Rightarrow> int \<Rightarrow> nat" where
  "live_neighbors W H cur x y =
     length (filter (\<lambda>p. cell_at W cur p \<noteq> 0) (neighbor_coords W H x y))"

text \<open>The cells the seeding loop stores, and its loop invariant.\<close>

definition seed_cells :: "(int \<Rightarrow> int) \<Rightarrow> nat \<Rightarrow> Cell list" where
  "seed_cells rnd n = map (\<lambda>i. of_bool (rnd (int i) > 85)) [0..<n]"

definition seeded :: "Cell list \<Rightarrow> nat \<Rightarrow> state \<Rightarrow> bool" where
  "seeded cs k st \<longleftrightarrow>
     (\<forall>i<k. currentGen st ! i = cs ! i \<and> pixels st ! i = cell_color (cs ! i))"

section \<open>Concrete inputs\<close>

text \<open>
  A sequence of draws from \<open>[0, 100]\<close>, the 5 by 4 grid it seeds (cells \<open>(0,2)\<close>,
  \<open>(0,3)\<close> and \<open>(1,3)\<close> alive), and the generation that follows: a 2 by 2 block.
\<close>

definition draws :: "int \<Rightarrow> int" where
  "draws i = (13 * i * i) mod 101"

definition seeded54 :: state where
  "seeded54 =
     \<lparr>currentGen = [0, 0, 0, 0, 0,  0, 0, 0, 0, 0,  1, 0, 0, 0, 0,  1, 1, 0, 0, 0],
      nextGen = [0, 0, 0, 0, 0,  0, 0, 0, 0, 0,  0, 0, 0, 0, 0,  0, 0, 0, 0, 0],
      pixels = [BLACK, BLACK, BLACK, BLACK, BLACK,  BLACK, BLACK, BLACK, BLACK, BLACK,
                CYAN, BLACK, BLACK, BLACK, BLACK,  CYAN, CYAN, BLACK, BLACK, BLACK]\<rparr>"

definition block54 :: state where
  "block54 =
     \<lparr>currentGen = [0, 0, 0, 0, 0,  0, 0, 0, 0, 0,  1, 1, 0, 0, 0,  1, 1, 0, 0, 0],
      nextGen = [0, 0, 0, 0, 0,  0, 0, 0, 0, 0,  1, 1, 0, 0, 0,  1, 1, 0, 0, 0],
      pixels = [BLACK, BLACK, BLACK, BLACK, BLACK,  BLACK, BLACK, BLACK, BLACK, BLACK,
                CYAN, CYAN, BLACK, BLACK, BLACK,  CYAN, CYAN, BLACK, BLACK, BLACK]\<rparr>"

text \<open>
  Cyclic translation of a row-major \<open>W\<close> by \<open>H\<close> buffer by \<open>(dx, dy)\<close>: the entry at
  \<open>(x, y)\<close> of the result is the entry at \<open>((x - dx) mod W, (y - dy) mod H)\<close> of the
  argument, so every cell moves \<open>dx\<close> to the right and \<open>dy\<close> down, around the torus.
\<close>

definition translate :: "int \<Rightarrow> int \<Rightarrow> int \<Rightarrow> int \<Rightarrow> 'a list \<Rightarrow> 'a list" where
  "translate W H dx dy cs =
     map (\<lambda>i. cs ! nat (((int i div W - dy) mod H) * W + ((int i mod W - dx) mod W)))
       [0..<length cs]"

text \<open>The seeded 5 by 4 grid moved by \<open>(2, 3)\<close>.\<close>

definition shifted54 :: "Cell list" where
  "shifted54 = [0, 0, 0, 0, 0,  0, 0, 1, 0, 0,  0, 0, 1, 1, 0,  0, 0, 0, 0, 0]"

section \<open>The blinker\<close>

text \<open>
  A horizontal line of three live cells centred at \<open>(cx, cy)\<close>, and the vertical line of
  three with the same centre, as predicates on coordinates and as \<open>W\<close> by \<open>H\<close> grids
  that are dead everywhere else.
\<close>

definition in_blinker_h :: "int \<Rightarrow> int \<Rightarrow> int \<Rightarrow> int \<Rightarrow> bool" where
  "in_blinker_h cx cy u v \<longleftrightarrow> v = cy \<and> cx - 1 \<le> u \<and> u \<le> cx + 1"

definition in_blinker_v :: "int \<Rightarrow> int \<Rightarrow> int \<Rightarrow> int \<Rightarrow> bool" where
  "in_blinker_v cx cy u v \<longleftrightarrow> u = cx \<and> cy - 1 \<le> v \<and> v \<le> cy + 1"

definition pattern :: "int \<Rightarrow> int \<Rightarrow> (int \<Rightarrow> int \<Rightarrow> bool) \<Rightarrow> Cell list" where
  "pattern W H P = map (\<lambda>i. of_bool (P (int i mod W) (int i div W))) [0..<nat (W * H)]"

definition blinker_h :: "int \<Rightarrow> int \<Rightarrow> int \<Rightarrow> int \<Rightarrow> Cell list" where
  "blinker_h W H cx cy = pattern W H (in_blinker_h cx cy)"

definition blinker_v :: "int \<Rightarrow> int \<Rightarrow> int \<Rightarrow> int \<Rightarrow> Cell list" where
  "blinker_v W H cx cy = pattern W H (in_blinker_v cx cy)"

text \<open>The indices of the live cells of a grid, in increasing order.\<close>

definition live_cells :: "Cell list \<Rightarrow> nat list" where
  "live_cells cs = filter (\<lambda>i. cs ! i \<noteq> 0) [0..<length cs]"

text \<open>Within one step of \<open>c\<close>.\<close>

definition near :: "int \<Rightarrow> int \<Rightarrow> bool" where
  "near c u \<longleftrightarrow> c - 1 \<le> u \<and> u \<le> c + 1"

section \<open>Arithmetic and checked accesses\<close>

lemma smod_nonneg: "0 \<le> k \<Longrightarrow> 0 < l \<Longrightarrow> k smod l = k mod (l::int)"
  by (simp add: signed_modulo_int_def sgn_if)

lemma idx_bound:
  assumes "0 \<le> x" "x < W" "0 \<le> y" "y < H"
  shows "0 \<le> y * W + x" "y * W + x < W * (H::int)"
proof -
  from assms show "0 \<le> y * W + x" by simp
  from assms have "y + 1 \<le> H" "0 < W" by simp_all
  then have "(y + 1) * W \<le> H * W" by (intro mult_right_mono) simp_all
  with assms show "y * W + x < W * H" by (simp add: algebra_simps)
qed

lemma rd_in: "0 \<le> i \<Longrightarrow> i < int (length xs) \<Longrightarrow> rd xs i = Some (xs ! nat i)"
  by (simp add: rd_def)

lemma wr_in: "0 \<le> i \<Longrightarrow> i < int (length xs) \<Longrightarrow> wr xs i v = Some (xs[nat i := v])"
  by (simp add: wr_def)

lemma neighbors_eq:
  assumes W: "0 < W" and H: "0 < H" and len: "int (length cur) = W * H"
    and x: "0 \<le> x" "x < W" and y: "0 \<le> y" "y < H"
  shows "neighbors W cur (y * W) (((y - 1 + H) smod H) * W) (((y + 1) smod H) * W) x
         = Some (neighbor_sum W H cur x y)"
proof -
  define xl xr yu yd where "xl = (x - 1 + W) mod W" and "xr = (x + 1) mod W"
    and "yu = (y - 1 + H) mod H" and "yd = (y + 1) mod H"
  have s: "(x - 1 + W) smod W = xl" "(x + 1) smod W = xr"
    "(y - 1 + H) smod H = yu" "(y + 1) smod H = yd"
    using W H x y by (simp_all add: smod_nonneg xl_def xr_def yu_def yd_def)
  have b: "0 \<le> xl" "xl < W" "0 \<le> xr" "xr < W" "0 \<le> yu" "yu < H" "0 \<le> yd" "yd < H"
    using W H by (simp_all add: xl_def xr_def yu_def yd_def)
  have r: "\<And>u v. 0 \<le> u \<Longrightarrow> u < W \<Longrightarrow> 0 \<le> v \<Longrightarrow> v < H \<Longrightarrow>
      rd cur (v * W + u) = Some (cur ! nat (v * W + u))"
    using idx_bound len by (simp add: rd_in)
  have "neighbors W cur (y * W) (yu * W) (yd * W) x =
    Some (uint (cur ! nat (yu * W + xl)) + uint (cur ! nat (yu * W + x)) +
      uint (cur ! nat (yu * W + xr)) + uint (cur ! nat (y * W + xl)) +
      uint (cur ! nat (y * W + xr)) + uint (cur ! nat (yd * W + xl)) +
      uint (cur ! nat (yd * W + x)) + uint (cur ! nat (yd * W + xr)))"
    unfolding neighbors_def s Let_def by (simp add: r b x y)
  also have "\<dots> = Some (neighbor_sum W H cur x y)"
    by (simp add: neighbor_sum_def neighbor_coords_def cell_at_def Let_def
        xl_def xr_def yu_def yd_def)
  finally show ?thesis by (simp only: s)
qed


lemma gen_next_length: "length (gen_next W H cur) = length cur"
  by (simp add: gen_next_def)

lemma gen_next_nth:
  assumes "0 < W" "int (length cur) = W * H" "0 \<le> x" "x < W" "0 \<le> y" "y < H"
  shows "gen_next W H cur ! nat (y * W + x)
         = next_cell (cur ! nat (y * W + x)) (neighbor_sum W H cur x y)"
proof -
  have lt: "nat (y * W + x) < length cur"
    using idx_bound [OF assms(3-6)] assms(2) by linarith
  have i: "int (nat (y * W + x)) = y * W + x"
    using assms by simp
  have m: "(y * W + x) mod W = x" "(y * W + x) div W = y"
    using assms by simp_all
  have "gen_next W H cur ! nat (y * W + x) =
      next_cell (cur ! nat (y * W + x))
        (neighbor_sum W H cur (int (nat (y * W + x)) mod W) (int (nat (y * W + x)) div W))"
    using lt by (simp add: gen_next_def)
  then show ?thesis
    by (simp only: i m)
qed

lemma cell_step_char:
  assumes ok: "size_ok W H st" and x: "0 \<le> x" "x < W" and y: "0 \<le> y" "y < H"
    and f: "filled (gen_next W H (currentGen st)) (nat (y * W + x)) st"
  shows "\<exists>st'. cell_step W (y * W) (((y - 1 + H) smod H) * W) (((y + 1) smod H) * W) x st
           = Some st' \<and> currentGen st' = currentGen st \<and> size_ok W H st' \<and>
           filled (gen_next W H (currentGen st)) (nat (y * W + (x + 1))) st'"
proof -
  let ?cur = "currentGen st" and ?k = "nat (y * W + x)"
  let ?G = "gen_next W H ?cur"
  from ok have W: "0 < W" and H: "0 < H" and len: "int (length ?cur) = W * H"
    and lenn: "int (length (nextGen st)) = W * H" and lenp: "int (length (pixels st)) = W * H"
    by (simp_all add: size_ok_def)
  have ib: "0 \<le> y * W + x" "y * W + x < W * H"
    using idx_bound [OF x y] by simp_all
  have n: "neighbors W ?cur (y * W) (((y - 1 + H) smod H) * W) (((y + 1) smod H) * W) x
           = Some (neighbor_sum W H ?cur x y)"
    by (rule neighbors_eq [OF W H len x y])
  let ?v = "next_cell (?cur ! ?k) (neighbor_sum W H ?cur x y)"
  have v: "?v = ?G ! ?k"
    by (simp add: gen_next_nth [OF W len x y])
  let ?st' = "st\<lparr>nextGen := (nextGen st)[?k := ?v], pixels := (pixels st)[?k := cell_color ?v]\<rparr>"
  have kn: "?k < length (nextGen st)" and kp: "?k < length (pixels st)"
    using ib lenn lenp by linarith+
  have step: "cell_step W (y * W) (((y - 1 + H) smod H) * W) (((y + 1) smod H) * W) x st
        = Some ?st'"
    unfolding cell_step_def n Let_def
    using ib len lenn lenp kn by (simp add: rd_in wr_in)
  have k1: "nat (y * W + (x + 1)) = Suc ?k"
    using ib by (simp add: nat_add_distrib)
  have "filled ?G (Suc ?k) ?st'"
    unfolding filled_def
  proof (intro allI impI)
    fix i assume "i < Suc ?k"
    then consider "i < ?k" | "i = ?k" by linarith
    then show "nextGen ?st' ! i = ?G ! i \<and> pixels ?st' ! i = cell_color (?G ! i)"
    proof cases
      case 1
      with f show ?thesis by (simp add: filled_def)
    next
      case 2
      with kn kp v show ?thesis by simp
    qed
  qed
  moreover have "size_ok W H ?st'"
    using ok by (simp add: size_ok_def)
  ultimately show ?thesis
    using step k1 by simp
qed

lemma x_loop_char:
  assumes y: "0 \<le> y" "y < H"
  shows "size_ok W H st \<Longrightarrow> 0 \<le> x \<Longrightarrow> x \<le> W \<Longrightarrow>
     filled (gen_next W H (currentGen st)) (nat (y * W + x)) st \<Longrightarrow>
     \<exists>st'. x_loop W (y * W) (((y - 1 + H) smod H) * W) (((y + 1) smod H) * W) x st = Some st' \<and>
       currentGen st' = currentGen st \<and> size_ok W H st' \<and>
       filled (gen_next W H (currentGen st)) (nat (y * W + W)) st'"
proof (induction "nat (W - x)" arbitrary: x st)
  case 0
  then have "x = W" by simp
  with 0 show ?case by simp
next
  case (Suc n)
  then have x: "0 \<le> x" "x < W" by linarith+
  from cell_step_char [OF Suc.prems(1) x y Suc.prems(4)]
  obtain st1 where s1: "cell_step W (y * W) (((y - 1 + H) smod H) * W) (((y + 1) smod H) * W) x st
           = Some st1" and c1: "currentGen st1 = currentGen st" and ok1: "size_ok W H st1"
    and f1: "filled (gen_next W H (currentGen st)) (nat (y * W + (x + 1))) st1"
    by blast
  have "n = nat (W - (x + 1))" using Suc.hyps(2) by linarith
  from Suc.hyps(1) [OF this ok1] f1 c1 x
  obtain st' where "x_loop W (y * W) (((y - 1 + H) smod H) * W) (((y + 1) smod H) * W) (x + 1) st1
      = Some st'" "currentGen st' = currentGen st" "size_ok W H st'"
      "filled (gen_next W H (currentGen st)) (nat (y * W + W)) st'"
    by auto
  with s1 x show ?case
    by (subst x_loop.simps) simp
qed

lemma y_loop_char:
  "size_ok W H st \<Longrightarrow> 0 \<le> y \<Longrightarrow> y \<le> H \<Longrightarrow>
     filled (gen_next W H (currentGen st)) (nat (y * W)) st \<Longrightarrow>
     \<exists>st'. y_loop W H y st = Some st' \<and>
       currentGen st' = currentGen st \<and> size_ok W H st' \<and>
       filled (gen_next W H (currentGen st)) (nat (H * W)) st'"
proof (induction "nat (H - y)" arbitrary: y st)
  case 0
  then have "y = H" by simp
  with 0 show ?case by simp
next
  case (Suc n)
  then have y: "0 \<le> y" "y < H" by linarith+
  from Suc.prems(1) have W: "0 \<le> W" by (simp add: size_ok_def)
  from x_loop_char [OF y Suc.prems(1) order_refl W] Suc.prems(4)
  obtain st1 where s1: "row_step W H y st = Some st1"
    and c1: "currentGen st1 = currentGen st" and ok1: "size_ok W H st1"
    and f1: "filled (gen_next W H (currentGen st)) (nat (y * W + W)) st1"
    by (auto simp: row_step_def Let_def)
  have e: "(y + 1) * W = y * W + W" by (simp add: algebra_simps)
  have "n = nat (H - (y + 1))" using Suc.hyps(2) by linarith
  from Suc.hyps(1) [OF this ok1] f1 c1 y e
  obtain st' where "y_loop W H (y + 1) st1 = Some st'" "currentGen st' = currentGen st"
    "size_ok W H st'" "filled (gen_next W H (currentGen st)) (nat (H * W)) st'"
    by auto
  with s1 y show ?case
    by (subst y_loop.simps) simp
qed

lemma UpdateGameOfLife_eq:
  assumes ok: "size_ok W H st"
  shows "UpdateGameOfLife W H st =
    Some \<lparr>currentGen = gen_next W H (currentGen st), nextGen = gen_next W H (currentGen st),
          pixels = map cell_color (gen_next W H (currentGen st))\<rparr>"
proof -
  let ?G = "gen_next W H (currentGen st)"
  have "filled ?G (nat (0 * W)) st" by (simp add: filled_def)
  from y_loop_char [OF ok order_refl _ this] ok
  obtain st' where l: "y_loop W H 0 st = Some st'" and ok': "size_ok W H st'"
    and c: "currentGen st' = currentGen st" and f: "filled ?G (nat (H * W)) st'"
    by (auto simp: size_ok_def)
  have n: "length (nextGen st') = nat (H * W)" "length (pixels st') = nat (H * W)"
    "length ?G = nat (H * W)"
    using ok' c by (simp_all add: size_ok_def gen_next_length mult.commute nat_eq_iff2)
  have "nextGen st' = ?G"
    using f n by (intro nth_equalityI) (simp_all add: filled_def)
  moreover have "pixels st' = map cell_color ?G"
    using f n by (intro nth_equalityI) (simp_all add: filled_def)
  ultimately show ?thesis
    using l by (simp add: UpdateGameOfLife_def)
qed

section \<open>Buffer sizes and bounds\<close>

lemma size_ok_Update:
  assumes "size_ok W H st"
  shows "\<exists>st'. UpdateGameOfLife W H st = Some st' \<and> size_ok W H st' \<and>
    length (currentGen st') = length (currentGen st) \<and>
    length (nextGen st') = length (nextGen st) \<and>
    length (pixels st') = length (pixels st)"
proof -
  from assms have "int (length (currentGen st)) = int (length (nextGen st))"
    "int (length (currentGen st)) = int (length (pixels st))"
    by (simp_all add: size_ok_def)
  then show ?thesis
    using assms by (simp add: UpdateGameOfLife_eq size_ok_def gen_next_length)
qed

lemma size_ok_steps:
  "size_ok W H st \<Longrightarrow> \<exists>st'. steps n W H st = Some st' \<and> size_ok W H st' \<and>
    length (currentGen st') = length (currentGen st) \<and>
    length (nextGen st') = length (nextGen st) \<and>
    length (pixels st') = length (pixels st)"
proof (induction n arbitrary: st)
  case 0
  then show ?case by simp
next
  case (Suc n)
  from size_ok_Update [OF Suc.prems] obtain st1 where
    u: "UpdateGameOfLife W H st = Some st1" and ok1: "size_ok W H st1"
    and l: "length (currentGen st1) = length (currentGen st)"
      "length (nextGen st1) = length (nextGen st)"
      "length (pixels st1) = length (pixels st)"
    by blast
  from Suc.IH [OF ok1] u l show ?case by simp
qed

lemma size_ok_globals: "0 < W \<Longrightarrow> 0 < H \<Longrightarrow> size_ok W H (globals W H)"
  by (simp add: size_ok_def globals_def)

text \<open>
  Claim C6. After any number \<open>n\<close> of calls of \<^verbatim>\<open>UpdateGameOfLife\<close> the three
  buffers have the lengths they had before, and each has \<open>W * H\<close> entries. The
  dimensions themselves are constants of the program, not part of its state. The calls
  all return: no access is out of bounds.
\<close>

theorem steps_preserve_sizes:
  assumes "size_ok W H st"
  shows "\<exists>st'. steps n W H st = Some st' \<and>
    length (currentGen st') = length (currentGen st) \<and>
    length (nextGen st') = length (nextGen st) \<and>
    length (pixels st') = length (pixels st) \<and>
    int (length (currentGen st')) = W * H \<and>
    int (length (nextGen st')) = W * H \<and>
    int (length (pixels st')) = W * H"
  using size_ok_steps [OF assms, of n] by (auto simp: size_ok_def)

text \<open>
  The program's own buffers as they are constructed, 100 by 100, after seven calls.
\<close>

theorem steps_preserve_sizes_witness:
  "size_ok GRID_WIDTH GRID_HEIGHT (globals GRID_WIDTH GRID_HEIGHT) \<and>
   (\<exists>st'. steps 7 GRID_WIDTH GRID_HEIGHT (globals GRID_WIDTH GRID_HEIGHT) = Some st' \<and>
      length (currentGen st') = 10000 \<and> length (nextGen st') = 10000 \<and>
      length (pixels st') = 10000)"
proof -
  have ok: "size_ok GRID_WIDTH GRID_HEIGHT (globals GRID_WIDTH GRID_HEIGHT)"
    by (simp add: size_ok_def globals_def GRID_WIDTH_def GRID_HEIGHT_def)
  from steps_preserve_sizes [OF ok, of 7] ok show ?thesis
    by (auto simp: GRID_WIDTH_def GRID_HEIGHT_def)
qed

text \<open>
  Claim C9. For \<open>x\<close> in \<open>[-1, W]\<close> and \<open>y\<close> in \<open>[-1, H]\<close> the branching wrap of
  \<^verbatim>\<open>GetIndex\<close> gives \<open>((y + H) mod H) * W + ((x + W) mod W)\<close>, with C's truncating
  \<^verbatim>\<open>%\<close> as well as with the mathematical \<open>mod\<close>.
\<close>

theorem GetIndex_eq_modulo:
  assumes "0 < W" "0 < H" "-1 \<le> x" "x \<le> W" "-1 \<le> y" "y \<le> H"
  shows "GetIndex W H x y = ((y + H) smod H) * W + ((x + W) smod W) \<and>
         GetIndex W H x y = ((y + H) mod H) * W + ((x + W) mod W)"
proof -
  have sx: "(x + W) smod W = (x + W) mod W" and sy: "(y + H) smod H = (y + H) mod H"
    using assms by (simp_all add: smod_nonneg)
  have mx: "(x + W) mod W = (if x < 0 then W - 1 else if x \<ge> W then 0 else x)"
  proof -
    consider "x = -1" | "x = W" | "0 \<le> x" "x < W" using assms by linarith
    then show ?thesis
    proof cases
      case 1
      with assms show ?thesis by (simp add: zmod_minus1)
    next
      case 2
      with assms show ?thesis by simp
    next
      case 3
      then show ?thesis by simp
    qed
  qed
  have my: "(y + H) mod H = (if y < 0 then H - 1 else if y \<ge> H then 0 else y)"
  proof -
    consider "y = -1" | "y = H" | "0 \<le> y" "y < H" using assms by linarith
    then show ?thesis
    proof cases
      case 1
      with assms show ?thesis by (simp add: zmod_minus1)
    next
      case 2
      with assms show ?thesis by simp
    next
      case 3
      then show ?thesis by simp
    qed
  qed
  show ?thesis
    unfolding sx sy mx my by (simp add: GetIndex_def Let_def)
qed

text \<open>
  The corner \<open>(-1, GRID_HEIGHT)\<close> of the 100 by 100 grid wraps to index 99.
\<close>

theorem GetIndex_eq_modulo_witness:
  "GetIndex GRID_WIDTH GRID_HEIGHT (-1) GRID_HEIGHT = 99 \<and>
   ((GRID_HEIGHT + GRID_HEIGHT) smod GRID_HEIGHT) * GRID_WIDTH
     + ((-1 + GRID_WIDTH) smod GRID_WIDTH) = 99"
  using GetIndex_eq_modulo [of GRID_WIDTH GRID_HEIGHT "-1" GRID_HEIGHT]
  by (simp add: GRID_WIDTH_def GRID_HEIGHT_def GetIndex_def signed_modulo_int_def)

text \<open>
  Claim C10. For every cell \<open>(x, y)\<close> of the grid, each of the nine indices the loop
  body uses lies in \<open>[0, W * H)\<close>, which is the length of \<^verbatim>\<open>currentGen\<close>; and the
  whole call returns a state, that is, none of its checked accesses is out of bounds.
\<close>

theorem UpdateGameOfLife_in_bounds:
  assumes "size_ok W H st" "0 \<le> x" "x < W" "0 \<le> y" "y < H"
  shows "list_all (in_range (W * H)) (step_indices W H x y) \<and>
         list_all (in_range (int (length (currentGen st)))) (step_indices W H x y) \<and>
         UpdateGameOfLife W H st \<noteq> None"
proof -
  from assms have W: "0 < W" and H: "0 < H" and len: "int (length (currentGen st)) = W * H"
    by (simp_all add: size_ok_def)
  define xl xr yu yd where "xl = (x - 1 + W) mod W" and "xr = (x + 1) mod W"
    and "yu = (y - 1 + H) mod H" and "yd = (y + 1) mod H"
  have s: "(x - 1 + W) smod W = xl" "(x + 1) smod W = xr"
    "(y - 1 + H) smod H = yu" "(y + 1) smod H = yd"
    using W H assms by (simp_all add: smod_nonneg xl_def xr_def yu_def yd_def)
  have b: "0 \<le> xl" "xl < W" "0 \<le> xr" "xr < W" "0 \<le> yu" "yu < H" "0 \<le> yd" "yd < H"
    using W H by (simp_all add: xl_def xr_def yu_def yd_def)
  have r: "\<And>u v. 0 \<le> u \<Longrightarrow> u < W \<Longrightarrow> 0 \<le> v \<Longrightarrow> v < H \<Longrightarrow> in_range (W * H) (v * W + u)"
    using idx_bound by (simp add: in_range_def)
  have "list_all (in_range (W * H)) (step_indices W H x y)"
    unfolding step_indices_def s Let_def using assms b by (simp add: r)
  then show ?thesis
    using assms(1) by (simp add: len UpdateGameOfLife_eq)
qed

text \<open>
  The bottom-left cell \<open>(0, 99)\<close> of the 100 by 100 grid, where both wraps apply.
\<close>

theorem UpdateGameOfLife_in_bounds_witness:
  "size_ok GRID_WIDTH GRID_HEIGHT (globals GRID_WIDTH GRID_HEIGHT) \<and>
   step_indices GRID_WIDTH GRID_HEIGHT 0 99 = [9899, 9800, 9801, 9999, 9901, 99, 0, 1, 9900] \<and>
   list_all (in_range GRID_SIZE) (step_indices GRID_WIDTH GRID_HEIGHT 0 99) \<and>
   UpdateGameOfLife GRID_WIDTH GRID_HEIGHT (globals GRID_WIDTH GRID_HEIGHT) \<noteq> None"
proof -
  have ok: "size_ok GRID_WIDTH GRID_HEIGHT (globals GRID_WIDTH GRID_HEIGHT)"
    by (simp add: size_ok_def globals_def GRID_WIDTH_def GRID_HEIGHT_def)
  have i: "step_indices GRID_WIDTH GRID_HEIGHT 0 99 = [9899, 9800, 9801, 9999, 9901, 99, 0, 1, 9900]"
    by (simp add: step_indices_def GRID_WIDTH_def GRID_HEIGHT_def signed_modulo_int_def)
  from UpdateGameOfLife_in_bounds [OF ok, of 0 99] ok i show ?thesis
    by (simp add: GRID_SIZE_def GRID_WIDTH_def GRID_HEIGHT_def)
qed

section \<open>Seeding and cell values\<close>

lemma seed_step_char:
  assumes len: "length (currentGen st) = n" "length (pixels st) = n"
    and i: "0 \<le> i" "i < int n" and f: "seeded (seed_cells rnd n) (nat i) st"
  shows "\<exists>st'. seed_step rnd i st = Some st' \<and> nextGen st' = nextGen st \<and>
     length (currentGen st') = n \<and> length (pixels st') = n \<and>
     seeded (seed_cells rnd n) (nat (i + 1)) st'"
proof -
  let ?k = "nat i"
  let ?v = "of_bool (rnd i > 85) :: Cell"
  let ?st' = "st\<lparr>currentGen := (currentGen st)[?k := ?v],
                 pixels := (pixels st)[?k := cell_color ?v]\<rparr>"
  have k: "?k < n" using i by linarith
  have v: "seed_cells rnd n ! ?k = ?v"
    using k i by (simp add: seed_cells_def)
  have step: "seed_step rnd i st = Some ?st'"
    unfolding seed_step_def using len i k by (simp add: rd_in wr_in)
  have k1: "nat (i + 1) = Suc ?k" using i by linarith
  have "seeded (seed_cells rnd n) (Suc ?k) ?st'"
    unfolding seeded_def
  proof (intro allI impI)
    fix j assume "j < Suc ?k"
    then consider "j < ?k" | "j = ?k" by linarith
    then show "currentGen ?st' ! j = seed_cells rnd n ! j \<and>
               pixels ?st' ! j = cell_color (seed_cells rnd n ! j)"
    proof cases
      case 1
      with f show ?thesis by (simp add: seeded_def)
    next
      case 2
      with k len v show ?thesis by simp
    qed
  qed
  with step k1 len show ?thesis by simp
qed

lemma seed_loop_char:
  "length (currentGen st) = n \<Longrightarrow> length (pixels st) = n \<Longrightarrow> 0 \<le> i \<Longrightarrow> i \<le> int n \<Longrightarrow>
   seeded (seed_cells rnd n) (nat i) st \<Longrightarrow>
   \<exists>st'. seed_loop rnd (int n) i st = Some st' \<and> nextGen st' = nextGen st \<and>
     length (currentGen st') = n \<and> length (pixels st') = n \<and>
     seeded (seed_cells rnd n) n st'"
proof (induction "n - nat i" arbitrary: i st)
  case 0
  then have "i = int n" by linarith
  with 0 show ?case by simp
next
  case (Suc m)
  then have i: "0 \<le> i" "i < int n" by linarith+
  from seed_step_char [OF Suc.prems(1,2) i Suc.prems(5)]
  obtain st1 where s1: "seed_step rnd i st = Some st1" and n1: "nextGen st1 = nextGen st"
    and l1: "length (currentGen st1) = n" "length (pixels st1) = n"
    and f1: "seeded (seed_cells rnd n) (nat (i + 1)) st1"
    by blast
  have "m = n - nat (i + 1)" using Suc.hyps(2) i by linarith
  from Suc.hyps(1) [OF this l1 _ _ f1] i n1
  obtain st' where "seed_loop rnd (int n) (i + 1) st1 = Some st'" "nextGen st' = nextGen st"
    "length (currentGen st') = n" "length (pixels st') = n" "seeded (seed_cells rnd n) n st'"
    by auto
  with s1 i show ?case
    by (subst seed_loop.simps) simp
qed

lemma seed_eq:
  assumes "0 \<le> W * H"
  shows "seed W H rnd =
    Some \<lparr>currentGen = seed_cells rnd (nat (W * H)),
          nextGen = replicate (nat (W * H)) 0,
          pixels = map cell_color (seed_cells rnd (nat (W * H)))\<rparr>"
proof -
  let ?n = "nat (W * H)"
  let ?cs = "seed_cells rnd ?n"
  have "\<exists>st'. seed_loop rnd (int ?n) 0 (globals W H) = Some st' \<and>
      nextGen st' = nextGen (globals W H) \<and>
      length (currentGen st') = ?n \<and> length (pixels st') = ?n \<and> seeded ?cs ?n st'"
    by (rule seed_loop_char) (simp_all add: globals_def seeded_def)
  then obtain st' where l: "seed_loop rnd (int ?n) 0 (globals W H) = Some st'"
    and ng: "nextGen st' = nextGen (globals W H)"
    and n: "length (currentGen st') = ?n" "length (pixels st') = ?n"
    and f: "seeded ?cs ?n st'"
    by blast
  have "currentGen st' = ?cs"
    using f n by (intro nth_equalityI) (simp_all add: seeded_def seed_cells_def)
  moreover have "pixels st' = map cell_color ?cs"
    using f n by (intro nth_equalityI) (simp_all add: seeded_def seed_cells_def)
  ultimately show ?thesis
    using l ng assms by (simp add: seed_def globals_def)
qed

lemma size_ok_seed:
  assumes "0 < W" "0 < H"
  shows "\<exists>st0. seed W H rnd = Some st0 \<and> size_ok W H st0"
  using assms by (simp add: seed_eq size_ok_def seed_cells_def)

lemma cell_color_iff: "cell_color v = CYAN \<longleftrightarrow> v \<noteq> 0"
  by (simp add: cell_color_def CYAN_def BLACK_def)

lemma cell_color_if: "cell_color v = (if v \<noteq> 0 then CYAN else BLACK)"
  by (simp add: cell_color_def CYAN_def)

lemma binary_seed_cells: "binary (seed_cells rnd n)"
  by (simp add: binary_def seed_cells_def list_all_iff)

lemma binary_gen_next: "binary (gen_next W H cur)"
  by (auto simp: binary_def gen_next_def list_all_iff next_cell_def)

lemma binary_steps:
  "size_ok W H st \<Longrightarrow> binary (currentGen st) \<Longrightarrow> steps k W H st = Some st' \<Longrightarrow>
   size_ok W H st' \<and> binary (currentGen st')"
proof (induction k arbitrary: st)
  case 0
  then show ?case by simp
next
  case (Suc k)
  let ?s1 = "\<lparr>currentGen = gen_next W H (currentGen st),
      nextGen = gen_next W H (currentGen st),
      pixels = map cell_color (gen_next W H (currentGen st))\<rparr>"
  from Suc.prems have s: "steps k W H ?s1 = Some st'"
    by (simp add: UpdateGameOfLife_eq)
  have "size_ok W H ?s1"
    using Suc.prems(1) by (simp add: size_ok_def gen_next_length)
  from Suc.IH [OF this _ s] show ?case
    by (simp add: binary_gen_next)
qed

lemma sum_binary:
  "(\<And>p. p \<in> set ps \<Longrightarrow> f p = 0 \<or> f p = (1 :: Cell)) \<Longrightarrow>
   (\<Sum>p\<leftarrow>ps. uint (f p)) = int (length (filter (\<lambda>p. f p \<noteq> 0) ps))"
proof (induction ps)
  case Nil
  then show ?case by simp
next
  case (Cons q ps)
  have "f q = 0 \<or> f q = 1" using Cons.prems by simp
  then have "uint (f q) = (if f q \<noteq> 0 then 1 else 0)" by auto
  moreover have "(\<Sum>p\<leftarrow>ps. uint (f p)) = int (length (filter (\<lambda>p. f p \<noteq> 0) ps))"
    using Cons.prems by (intro Cons.IH) simp
  ultimately show ?case by simp
qed

lemma neighbor_coords_in:
  assumes "0 < W" "0 < H" "0 \<le> x" "x < W" "0 \<le> y" "y < H"
    and "p \<in> set (neighbor_coords W H x y)"
  shows "0 \<le> fst p \<and> fst p < W \<and> 0 \<le> snd p \<and> snd p < H"
  using assms by (auto simp: neighbor_coords_def Let_def)

lemma binary_cell_at:
  assumes "binary cur" "int (length cur) = W * H" "0 \<le> fst p" "fst p < W" "0 \<le> snd p" "snd p < H"
  shows "cell_at W cur p = 0 \<or> cell_at W cur p = 1"
proof -
  have "nat (snd p * W + fst p) < length cur"
    using idx_bound [OF assms(3-6)] assms(2) by linarith
  then have "cur ! nat (snd p * W + fst p) \<in> set cur" by simp
  with assms(1) show ?thesis
    by (auto simp: binary_def list_all_iff cell_at_def)
qed

lemma neighbor_sum_live:
  assumes "0 < W" "0 < H" "0 \<le> x" "x < W" "0 \<le> y" "y < H"
    and "binary cur" "int (length cur) = W * H"
  shows "neighbor_sum W H cur x y = int (live_neighbors W H cur x y)"
  unfolding neighbor_sum_def live_neighbors_def
  by (rule sum_binary) (use assms neighbor_coords_in binary_cell_at in blast)

section \<open>The rule, the neighbour count, the pixels and determinism\<close>

lemma BLACK_neq_CYAN: "BLACK \<noteq> CYAN"
  by (simp add: BLACK_def CYAN_def)

text \<open>
  Claim C1. After a call of \<^verbatim>\<open>UpdateGameOfLife\<close>, for every cell index \<open>i\<close> below
  \<open>W * H\<close>, with \<open>n\<close> the neighbour sum of cell \<open>(i mod W, i div W)\<close> in the generation
  before the call: a cell that was alive is alive iff \<open>n = 2\<close> or \<open>n = 3\<close>, and a cell
  that was dead is alive iff \<open>n = 3\<close>. When every cell holds 0 or 1, \<open>n\<close> is the number
  of live neighbours.
\<close>

theorem conway_rule:
  assumes "size_ok W H st" "int i < W * H"
  shows "\<exists>st'. UpdateGameOfLife W H st = Some st' \<and>
    (let n = neighbor_sum W H (currentGen st) (int i mod W) (int i div W) in
       (currentGen st ! i \<noteq> 0 \<longrightarrow> (currentGen st' ! i \<noteq> 0 \<longleftrightarrow> n = 2 \<or> n = 3)) \<and>
       (currentGen st ! i = 0 \<longrightarrow> (currentGen st' ! i \<noteq> 0 \<longleftrightarrow> n = 3)) \<and>
       (binary (currentGen st) \<longrightarrow>
          n = int (live_neighbors W H (currentGen st) (int i mod W) (int i div W))))"
proof -
  let ?cur = "currentGen st" and ?x = "int i mod W" and ?y = "int i div W"
  from assms have W: "0 < W" and H: "0 < H" and len: "int (length ?cur) = W * H"
    by (simp_all add: size_ok_def)
  have x: "0 \<le> ?x" "?x < W" using W by simp_all
  have xy: "?y * W + ?x = int i" by simp
  have y0: "0 \<le> ?y" using W by (simp add: pos_imp_zdiv_nonneg_iff)
  have "?y < H"
  proof (rule ccontr)
    assume "\<not> ?y < H"
    then have "H * W \<le> ?y * W" using W by (intro mult_right_mono) simp_all
    moreover have "?y * W \<le> int i" using xy x(1) by linarith
    moreover have "W * H = H * W" by simp
    ultimately show False using assms(2) by linarith
  qed
  with y0 have y: "0 \<le> ?y" "?y < H" by simp_all
  have i: "nat (?y * W + ?x) = i" by simp
  have "gen_next W H ?cur ! i = next_cell (?cur ! i) (neighbor_sum W H ?cur ?x ?y)"
    using gen_next_nth [OF W len x y] by (simp only: i)
  moreover have "binary ?cur \<Longrightarrow> neighbor_sum W H ?cur ?x ?y = int (live_neighbors W H ?cur ?x ?y)"
    by (rule neighbor_sum_live [OF W H x y _ len])
  ultimately show ?thesis
    using assms(1) by (simp add: UpdateGameOfLife_eq next_cell_def Let_def)
qed

text \<open>
  On the seeded 5 by 4 grid the dead cell \<open>(1, 2)\<close> has three live neighbours and is born.
\<close>

theorem conway_rule_witness:
  "size_ok 5 4 seeded54 \<and> binary (currentGen seeded54) \<and>
   currentGen seeded54 ! 11 = 0 \<and> live_neighbors 5 4 (currentGen seeded54) 1 2 = 3 \<and>
   (\<exists>st'. UpdateGameOfLife 5 4 seeded54 = Some st' \<and> currentGen st' ! 11 \<noteq> 0)"
proof -
  have ok: "size_ok 5 4 seeded54" by code_simp
  have b: "binary (currentGen seeded54)" by code_simp
  have c: "currentGen seeded54 ! 11 = 0" by code_simp
  have n: "live_neighbors 5 4 (currentGen seeded54) 1 2 = 3" by code_simp
  from conway_rule [OF ok, of 11] ok b c n show ?thesis
    by (auto simp: Let_def)
qed

text \<open>
  Claim C2. In every state the program reaches (seeding, then any number of updates), for
  every cell \<open>(x, y)\<close> of the grid, the count that the loop body computes with the row
  offsets of the outer loop is the sum of the cell values at the eight wrapped neighbour
  coordinates, and each of these eight values is 0 or 1.
\<close>

theorem neighbor_count_is_wrapped_sum:
  assumes "0 < W" "0 < H" "seed W H rnd = Some st0" "steps k W H st0 = Some st"
    and "0 \<le> x" "x < W" "0 \<le> y" "y < H"
  shows "neighbors W (currentGen st) (y * W) (((y - 1 + H) smod H) * W)
           (((y + 1) smod H) * W) x
         = Some (neighbor_sum W H (currentGen st) x y) \<and>
         list_all (\<lambda>p. cell_at W (currentGen st) p = 0 \<or> cell_at W (currentGen st) p = 1)
           (neighbor_coords W H x y)"
proof -
  from assms(1-3) have ok0: "size_ok W H st0" and b0: "binary (currentGen st0)"
    using size_ok_seed [OF assms(1,2), of rnd] 
    by (auto simp: seed_eq binary_seed_cells)
  from binary_steps [OF ok0 b0 assms(4)] have ok: "size_ok W H st" and b: "binary (currentGen st)"
    by simp_all
  then have len: "int (length (currentGen st)) = W * H" by (simp add: size_ok_def)
  have "cell_at W (currentGen st) p = 0 \<or> cell_at W (currentGen st) p = 1"
    if "p \<in> set (neighbor_coords W H x y)" for p
    using neighbor_coords_in [OF assms(1,2,5-8) that] binary_cell_at [OF b len] by blast
  then show ?thesis
    using neighbors_eq [OF assms(1,2) len assms(5-8)] by (simp add: list_all_iff)
qed

text \<open>
  The corner \<open>(0, 0)\<close> of the 5 by 4 grid one update after seeding: its neighbours wrap
  to column 4 and row 3, and two of them are alive.
\<close>

theorem neighbor_count_is_wrapped_sum_witness:
  "seed 5 4 draws = Some seeded54 \<and> steps 1 5 4 seeded54 = Some block54 \<and>
   neighbor_coords 5 4 0 0 = [(4, 3), (0, 3), (1, 3), (4, 0), (1, 0), (4, 1), (0, 1), (1, 1)] \<and>
   neighbors 5 (currentGen block54) 0 15 5 0 = Some 2"
proof -
  have s: "seed 5 4 draws = Some seeded54" by code_simp
  have t: "steps 1 5 4 seeded54 = Some block54" by code_simp
  have c: "neighbor_coords 5 4 0 0 = [(4, 3), (0, 3), (1, 3), (4, 0), (1, 0), (4, 1), (0, 1), (1, 1)]"
    by code_simp
  have n: "neighbor_sum 5 4 (currentGen block54) 0 0 = 2" by code_simp
  have m: "(0 - 1 + 4) smod 4 * 5 = (15 :: int)" "(0 + 1) smod 4 * 5 = (5 :: int)"
    by (simp_all add: signed_modulo_int_def)
  from neighbor_count_is_wrapped_sum [OF _ _ s t, of 0 0] s t c n m show ?thesis
    by simp
qed

text \<open>
  Claim C3. Right after a call of \<^verbatim>\<open>UpdateGameOfLife\<close>, and right after the seeding
  loop, every entry \<open>i\<close> of \<^verbatim>\<open>pixels\<close> is the foreground colour (0, 255, 200, 255) when
  \<^verbatim>\<open>currentGen[i]\<close> is alive and \<^verbatim>\<open>BLACK\<close> otherwise; the two colours differ, so the
  entry is the foreground colour iff the cell is alive.
\<close>

theorem pixels_match_cells:
  assumes "size_ok W H st" "int i < W * H"
  shows "(\<exists>st'. UpdateGameOfLife W H st = Some st' \<and>
            pixels st' ! i = (if currentGen st' ! i \<noteq> 0 then CYAN else BLACK) \<and>
            (pixels st' ! i = CYAN \<longleftrightarrow> currentGen st' ! i \<noteq> 0)) \<and>
         (\<exists>st0. seed W H rnd = Some st0 \<and>
            pixels st0 ! i = (if currentGen st0 ! i \<noteq> 0 then CYAN else BLACK) \<and>
            (pixels st0 ! i = CYAN \<longleftrightarrow> currentGen st0 ! i \<noteq> 0))"
proof -
  from assms have W: "0 < W" and H: "0 < H" and len: "int (length (currentGen st)) = W * H"
    by (simp_all add: size_ok_def)
  have i: "i < length (currentGen st)" "i < nat (W * H)"
    using assms(2) len by linarith+
  have "0 \<le> W * H" using W H by simp
  then show ?thesis
    using assms(1) i
    by (simp add: UpdateGameOfLife_eq seed_eq gen_next_length seed_cells_def
        cell_color_iff cell_color_if BLACK_neq_CYAN del: upt_Suc)
qed

text \<open>
  Cell 11 of the 5 by 4 grid: dead and black after seeding, alive and cyan one update later.
\<close>

theorem pixels_match_cells_witness:
  "size_ok 5 4 seeded54 \<and>
   UpdateGameOfLife 5 4 seeded54 = Some block54 \<and>
   pixels block54 ! 11 = CYAN \<and> currentGen block54 ! 11 = 1 \<and>
   seed 5 4 draws = Some seeded54 \<and>
   pixels seeded54 ! 11 = BLACK \<and> currentGen seeded54 ! 11 = 0"
proof -
  have ok: "size_ok 5 4 seeded54" by code_simp
  have u: "UpdateGameOfLife 5 4 seeded54 = Some block54" by code_simp
  have s: "seed 5 4 draws = Some seeded54" by code_simp
  have c: "currentGen block54 ! 11 = 1" "currentGen seeded54 ! 11 = 0" by code_simp+
  from pixels_match_cells [OF ok, of 11 draws] ok u s c show ?thesis
    by simp
qed

text \<open>
  Claim C4. Two runs of one or more updates that start from the same current generation
  end in the same state: the same cells, the same next-generation buffer and the same
  pixels, whatever \<^verbatim>\<open>nextGen\<close> and \<^verbatim>\<open>pixels\<close> held before. The update is a function of
  \<^verbatim>\<open>currentGen\<close> alone; it makes no draw.
\<close>

theorem steps_deterministic:
  assumes "size_ok W H s1" "size_ok W H s2" "currentGen s1 = currentGen s2"
  shows "\<exists>st'. steps (Suc n) W H s1 = Some st' \<and> steps (Suc n) W H s2 = Some st'"
proof -
  let ?t = "\<lparr>currentGen = gen_next W H (currentGen s1), nextGen = gen_next W H (currentGen s1),
      pixels = map cell_color (gen_next W H (currentGen s1))\<rparr>"
  have "size_ok W H ?t"
    using assms(1) by (simp add: size_ok_def gen_next_length)
  from size_ok_steps [OF this, of n] obtain st' where "steps n W H ?t = Some st'"
    by blast
  then show ?thesis
    using assms by (simp add: UpdateGameOfLife_eq)
qed

text \<open>
  Three updates of the seeded 5 by 4 grid, once with its own buffers and once with other
  contents in \<^verbatim>\<open>nextGen\<close> and \<^verbatim>\<open>pixels\<close>.
\<close>

theorem steps_deterministic_witness:
  "size_ok 5 4 seeded54 \<and>
   size_ok 5 4 (seeded54\<lparr>nextGen := currentGen block54, pixels := pixels block54\<rparr>) \<and>
   steps 3 5 4 seeded54 = Some block54 \<and>
   steps 3 5 4 (seeded54\<lparr>nextGen := currentGen block54, pixels := pixels block54\<rparr>) = Some block54"
proof -
  let ?s2 = "seeded54\<lparr>nextGen := currentGen block54, pixels := pixels block54\<rparr>"
  have ok1: "size_ok 5 4 seeded54" by code_simp
  have ok2: "size_ok 5 4 ?s2" by code_simp
  have t: "steps 3 5 4 seeded54 = Some block54" by code_simp
  from steps_deterministic [OF ok1 ok2, of 2] ok1 ok2 t show ?thesis
    by (simp add: eval_nat_numeral)
qed

section \<open>Translation on the torus\<close>

lemma translate_length: "length (translate W H dx dy cs) = length cs"
  by (simp add: translate_def)

lemma index_split:
  assumes "0 < W" "int i < W * H"
  shows "0 \<le> int i mod W" "int i mod W < W" "0 \<le> int i div W" "int i div W < H"
    "nat (int i div W * W + int i mod W) = i"
proof -
  let ?x = "int i mod W" and ?y = "int i div W"
  show x: "0 \<le> ?x" "?x < W" using assms(1) by simp_all
  show "0 \<le> ?y" using assms(1) by (simp add: pos_imp_zdiv_nonneg_iff)
  have xy: "?y * W + ?x = int i" by simp
  show "?y < H"
  proof (rule ccontr)
    assume "\<not> ?y < H"
    then have "H * W \<le> ?y * W" using assms(1) by (intro mult_right_mono) simp_all
    moreover have "?y * W \<le> int i" using xy x(1) by linarith
    moreover have "W * H = H * W" by simp
    ultimately show False using assms(2) by linarith
  qed
  show "nat (?y * W + ?x) = i" by simp
qed

lemma translate_nth:
  assumes "0 < W" "0 < H" "int (length cs) = W * H" "0 \<le> x" "x < W" "0 \<le> y" "y < H"
  shows "translate W H dx dy cs ! nat (y * W + x)
         = cs ! nat (((y - dy) mod H) * W + ((x - dx) mod W))"
proof -
  have lt: "nat (y * W + x) < length cs"
    using idx_bound [OF assms(4-7)] assms(3) by linarith
  have i: "int (nat (y * W + x)) = y * W + x"
    using assms by simp
  have m: "(y * W + x) mod W = x" "(y * W + x) div W = y"
    using assms by simp_all
  have "translate W H dx dy cs ! nat (y * W + x) =
      cs ! nat (((int (nat (y * W + x)) div W - dy) mod H) * W
               + ((int (nat (y * W + x)) mod W - dx) mod W))"
    using lt by (simp add: translate_def)
  then show ?thesis
    by (simp only: i m)
qed

lemma cell_at_translate:
  assumes "0 < W" "0 < H" "int (length cs) = W * H"
    "0 \<le> fst p" "fst p < W" "0 \<le> snd p" "snd p < H"
  shows "cell_at W (translate W H dx dy cs) p
         = cell_at W cs ((fst p - dx) mod W, (snd p - dy) mod H)"
  using translate_nth [OF assms] by (simp add: cell_at_def)

lemma wrap_dec_shift:
  "((u - 1 + m) mod m - d) mod m = ((u - d) mod m - 1 + m) mod (m::int)"
proof -
  have "((u - 1 + m) mod m - d) mod m = (u - 1 + m - d) mod m"
    by (simp only: mod_diff_left_eq)
  also have "u - 1 + m - d = (u - d - 1) + m" by simp
  also have "(u - d - 1 + m) mod m = (u - d - 1) mod m"
    by (simp only: mod_add_self2)
  also have "\<dots> = ((u - d) mod m - 1) mod m"
    by (simp only: mod_diff_left_eq)
  also have "\<dots> = ((u - d) mod m - 1 + m) mod m"
    by (simp only: mod_add_self2)
  finally show ?thesis .
qed

lemma wrap_inc_shift:
  "((u + 1) mod m - d) mod m = ((u - d) mod m + 1) mod (m::int)"
proof -
  have "((u + 1) mod m - d) mod m = (u + 1 - d) mod m"
    by (simp only: mod_diff_left_eq)
  also have "u + 1 - d = (u - d) + 1" by simp
  also have "(u - d + 1) mod m = ((u - d) mod m + 1) mod m"
    by (simp only: mod_add_left_eq)
  finally show ?thesis .
qed

lemma neighbor_coords_shift:
  "map (\<lambda>p. ((fst p - dx) mod W, (snd p - dy) mod H)) (neighbor_coords W H x y)
   = neighbor_coords W H ((x - dx) mod W) ((y - dy) mod H)"
  unfolding neighbor_coords_def Let_def list.map fst_conv snd_conv
    wrap_dec_shift wrap_inc_shift ..

lemma neighbor_sum_translate:
  assumes "0 < W" "0 < H" "int (length cs) = W * H" "0 \<le> x" "x < W" "0 \<le> y" "y < H"
  shows "neighbor_sum W H (translate W H dx dy cs) x y
         = neighbor_sum W H cs ((x - dx) mod W) ((y - dy) mod H)"
proof -
  have "map (\<lambda>p. uint (cell_at W (translate W H dx dy cs) p)) (neighbor_coords W H x y)
      = map (\<lambda>p. uint (cell_at W cs ((fst p - dx) mod W, (snd p - dy) mod H)))
          (neighbor_coords W H x y)"
  proof (rule map_cong [OF refl])
    fix p assume "p \<in> set (neighbor_coords W H x y)"
    from neighbor_coords_in [OF assms(1,2,4-7) this]
    show "uint (cell_at W (translate W H dx dy cs) p)
        = uint (cell_at W cs ((fst p - dx) mod W, (snd p - dy) mod H))"
      by (simp add: cell_at_translate [OF assms(1-3)])
  qed
  also have "\<dots> = map (\<lambda>q. uint (cell_at W cs q))
      (map (\<lambda>p. ((fst p - dx) mod W, (snd p - dy) mod H)) (neighbor_coords W H x y))"
    by (simp add: comp_def)
  finally show ?thesis
    unfolding neighbor_sum_def by (simp only: neighbor_coords_shift)
qed

lemma gen_next_translate:
  assumes "0 < W" "0 < H" "int (length cs) = W * H"
  shows "gen_next W H (translate W H dx dy cs) = translate W H dx dy (gen_next W H cs)"
proof (rule nth_equalityI)
  show "length (gen_next W H (translate W H dx dy cs))
      = length (translate W H dx dy (gen_next W H cs))"
    by (simp add: gen_next_length translate_length)
next
  fix i assume "i < length (gen_next W H (translate W H dx dy cs))"
  then have i: "int i < W * H"
    using assms(3) by (simp add: gen_next_length translate_length)
  let ?x = "int i mod W" and ?y = "int i div W"
  let ?x' = "(?x - dx) mod W" and ?y' = "(?y - dy) mod H"
  note s = index_split [OF assms(1) i]
  have b: "0 \<le> ?x'" "?x' < W" "0 \<le> ?y'" "?y' < H"
    using assms(1,2) by simp_all
  have lt: "int (length (translate W H dx dy cs)) = W * H"
    "int (length (gen_next W H cs)) = W * H"
    using assms(3) by (simp_all add: gen_next_length translate_length)
  have "gen_next W H (translate W H dx dy cs) ! nat (?y * W + ?x)
      = next_cell (translate W H dx dy cs ! nat (?y * W + ?x))
          (neighbor_sum W H (translate W H dx dy cs) ?x ?y)"
    by (rule gen_next_nth [OF assms(1) lt(1) s(1-4)])
  also have "\<dots> = next_cell (cs ! nat (?y' * W + ?x')) (neighbor_sum W H cs ?x' ?y')"
    by (simp only: translate_nth [OF assms s(1-4)] neighbor_sum_translate [OF assms s(1-4)])
  also have "\<dots> = gen_next W H cs ! nat (?y' * W + ?x')"
    by (rule gen_next_nth [OF assms(1,3) b, symmetric])
  also have "\<dots> = translate W H dx dy (gen_next W H cs) ! nat (?y * W + ?x)"
    by (rule translate_nth [OF assms(1,2) lt(2) s(1-4), symmetric])
  finally show "gen_next W H (translate W H dx dy cs) ! i
      = translate W H dx dy (gen_next W H cs) ! i"
    by (simp only: s(5))
qed

lemma translate_map:
  assumes "0 < W" "0 < H" "int (length cs) = W * H"
  shows "translate W H dx dy (map f cs) = map f (translate W H dx dy cs)"
proof (rule nth_equalityI)
  show "length (translate W H dx dy (map f cs)) = length (map f (translate W H dx dy cs))"
    by (simp add: translate_length)
next
  fix i assume "i < length (translate W H dx dy (map f cs))"
  then have i: "i < length cs" by (simp add: translate_length)
  let ?j = "((int i div W - dy) mod H) * W + ((int i mod W - dx) mod W)"
  have "0 \<le> ?j \<and> ?j < W * H"
    using idx_bound [of "(int i mod W - dx) mod W" W "(int i div W - dy) mod H" H] assms(1,2)
    by simp
  then have "nat ?j < length cs" using assms(3) by linarith
  then show "translate W H dx dy (map f cs) ! i = map f (translate W H dx dy cs) ! i"
    using i by (simp add: translate_def)
qed



text \<open>
  Claim C5. Updating the grid translated by \<open>(dx, dy)\<close> gives the translation by
  \<open>(dx, dy)\<close> of the updated grid, for the cells and for the pixels, whatever the shift.
  Hence the count computed at any cell \<open>(x, y)\<close> of the translated grid, on an edge or
  not, is the neighbour sum of the original grid at the cell that was moved there.
\<close>

theorem step_commutes_with_translation:
  assumes "size_ok W H st" "0 \<le> x" "x < W" "0 \<le> y" "y < H"
  shows "(\<exists>st1 st2. UpdateGameOfLife W H st = Some st1 \<and>
           UpdateGameOfLife W H (st\<lparr>currentGen := translate W H dx dy (currentGen st)\<rparr>)
             = Some st2 \<and>
           currentGen st2 = translate W H dx dy (currentGen st1) \<and>
           pixels st2 = translate W H dx dy (pixels st1)) \<and>
         neighbors W (translate W H dx dy (currentGen st)) (y * W)
             (((y - 1 + H) smod H) * W) (((y + 1) smod H) * W) x
           = Some (neighbor_sum W H (currentGen st) ((x - dx) mod W) ((y - dy) mod H))"
proof -
  let ?cs = "currentGen st" and ?st = "st\<lparr>currentGen := translate W H dx dy (currentGen st)\<rparr>"
  from assms(1) have W: "0 < W" and H: "0 < H" and len: "int (length ?cs) = W * H"
    by (simp_all add: size_ok_def)
  have ok: "size_ok W H ?st"
    using assms(1) by (simp add: size_ok_def translate_length)
  have lg: "int (length (gen_next W H ?cs)) = W * H"
    using len by (simp add: gen_next_length)
  have lt: "int (length (translate W H dx dy ?cs)) = W * H"
    using len by (simp add: translate_length)
  have "neighbors W (translate W H dx dy ?cs) (y * W)
             (((y - 1 + H) smod H) * W) (((y + 1) smod H) * W) x
      = Some (neighbor_sum W H (translate W H dx dy ?cs) x y)"
    by (rule neighbors_eq [OF W H lt assms(2-5)])
  then show ?thesis
    by (simp add: UpdateGameOfLife_eq [OF assms(1)] UpdateGameOfLife_eq [OF ok]
        gen_next_translate [OF W H len] translate_map [OF W H lg]
        neighbor_sum_translate [OF W H len assms(2-5)])
qed

text \<open>
  The seeded 5 by 4 grid, whose live cells touch the left and the bottom edge, moved by
  \<open>(2, 3)\<close> into the interior.
\<close>

theorem step_commutes_with_translation_witness:
  "size_ok 5 4 seeded54 \<and>
   translate 5 4 2 3 (currentGen seeded54) = shifted54 \<and>
   UpdateGameOfLife 5 4 seeded54 = Some block54 \<and>
   (\<exists>st2. UpdateGameOfLife 5 4 (seeded54\<lparr>currentGen := shifted54\<rparr>) = Some st2 \<and>
      currentGen st2 = [0, 0, 0, 0, 0,  0, 0, 1, 1, 0,  0, 0, 1, 1, 0,  0, 0, 0, 0, 0]) \<and>
   neighbors 5 shifted54 5 0 10 3 = Some 3 \<and>
   neighbor_sum 5 4 (currentGen seeded54) 1 2 = 3"
proof -
  have ok: "size_ok 5 4 seeded54" by code_simp
  have t: "translate 5 4 2 3 (currentGen seeded54) = shifted54" by code_simp
  have u: "UpdateGameOfLife 5 4 seeded54 = Some block54" by code_simp
  have b: "translate 5 4 2 3 (currentGen block54)
      = [0, 0, 0, 0, 0,  0, 0, 1, 1, 0,  0, 0, 1, 1, 0,  0, 0, 0, 0, 0]" by code_simp
  have n: "neighbor_sum 5 4 (currentGen seeded54) 1 2 = 3" by code_simp
  have m: "(1 - 1 + 4) smod 4 * 5 = (0 :: int)" "(1 + 1) smod 4 * 5 = (10 :: int)"
    by (simp_all add: signed_modulo_int_def)
  from step_commutes_with_translation [OF ok, of 3 1 2 3] ok t u b n m show ?thesis
    by auto
qed

section \<open>The blinker oscillates\<close>

lemma run3:
  fixes n :: int
  assumes "4 \<le> n" "1 \<le> c" "c + 1 < n" "0 \<le> x" "x < n"
    and xl: "xl = (if x = 0 then n - 1 else x - 1)"
    and xr: "xr = (if x = n - 1 then 0 else x + 1)"
  shows "(near c xl \<and> near c x \<and> near c xr) \<longleftrightarrow> x = c"
    "x = c - 1 \<or> x = c + 1 \<Longrightarrow> near c xl \<longleftrightarrow> \<not> near c xr"
    "(xl = c) = (x = c + 1)" "(xr = c) = (x = c - 1)"
    "near c x \<longleftrightarrow> x = c - 1 \<or> x = c \<or> x = c + 1"
proof -
  show "(near c xl \<and> near c x \<and> near c xr) \<longleftrightarrow> x = c"
    unfolding near_def xl xr using assms(1-5) by (auto split: if_splits)
  show "x = c - 1 \<or> x = c + 1 \<Longrightarrow> near c xl \<longleftrightarrow> \<not> near c xr"
    unfolding near_def xl xr using assms(1-5) by (auto split: if_splits)
  show "(xl = c) = (x = c + 1)" "(xr = c) = (x = c - 1)"
    unfolding xl xr using assms(1-5) by (auto split: if_splits)
  show "near c x \<longleftrightarrow> x = c - 1 \<or> x = c \<or> x = c + 1"
    unfolding near_def by auto
qed

lemma core_h:
  fixes W H :: int
  assumes "4 \<le> W" "4 \<le> H" "1 \<le> cx" "cx + 1 < W" "1 \<le> cy" "cy + 1 < H"
    "0 \<le> x" "x < W" "0 \<le> y" "y < H"
    and xl: "xl = (if x = 0 then W - 1 else x - 1)"
    and xr: "xr = (if x = W - 1 then 0 else x + 1)"
    and yu: "yu = (if y = 0 then H - 1 else y - 1)"
    and yd: "yd = (if y = H - 1 then 0 else y + 1)"
  shows "next_cell (of_bool (in_blinker_h cx cy x y))
     (of_bool (in_blinker_h cx cy xl yu) + of_bool (in_blinker_h cx cy x yu) +
      of_bool (in_blinker_h cx cy xr yu) + of_bool (in_blinker_h cx cy xl y) +
      of_bool (in_blinker_h cx cy xr y) + of_bool (in_blinker_h cx cy xl yd) +
      of_bool (in_blinker_h cx cy x yd) + of_bool (in_blinker_h cx cy xr yd))
    = of_bool (in_blinker_v cx cy x y)"
proof -
  note c = run3 [OF assms(1,3,4,7,8) xl xr]
  note r = run3 [OF assms(2,5,6,9,10) yu yd]
  have h: "in_blinker_h cx cy u v = (v = cy \<and> near cx u)" for u v
    by (simp add: in_blinker_h_def near_def)
  have v: "in_blinker_v cx cy x y = (x = cx \<and> (y = cy - 1 \<or> y = cy \<or> y = cy + 1))"
    unfolding in_blinker_v_def by auto
  consider "y = cy" | "y = cy + 1" | "y = cy - 1" | "y \<noteq> cy" "y \<noteq> cy + 1" "y \<noteq> cy - 1"
    by blast
  then show ?thesis
  proof cases
    case 1
    then have e: "yu \<noteq> cy" "yd \<noteq> cy" using r(3,4) by simp_all
    consider "x = cx" | "x = cx - 1 \<or> x = cx + 1" | "\<not> near cx x" using c(5) by blast
    then show ?thesis
    proof cases
      case 1
      with c(1) have "near cx xl" "near cx x" "near cx xr" by simp_all
      with \<open>y = cy\<close> e 1 show ?thesis
        unfolding h v by (simp add: next_cell_def)
    next
      case 2
      with c(2,5) have n: "near cx x" "near cx xl \<longleftrightarrow> \<not> near cx xr" by blast+
      from 2 have "x \<noteq> cx" by auto
      with \<open>y = cy\<close> e n show ?thesis
        unfolding h v by (cases "near cx xr") (simp_all add: next_cell_def)
    next
      case 3
      with c(5) have "x \<noteq> cx" by simp
      with \<open>y = cy\<close> e 3 show ?thesis
        unfolding h v by (cases "near cx xl"; cases "near cx xr") (simp_all add: next_cell_def)
    qed
  next
    case 2
    then have e: "yu = cy" "yd \<noteq> cy" "y \<noteq> cy" using r(3,4) by simp_all
    show ?thesis
    proof (cases "x = cx")
      case True
      with c(1) have "near cx xl" "near cx x" "near cx xr" by simp_all
      with 2 e True show ?thesis
        unfolding h v by (simp add: next_cell_def)
    next
      case False
      with c(1) have "\<not> (near cx xl \<and> near cx x \<and> near cx xr)" by simp
      with 2 e False show ?thesis
        unfolding h v
        by (cases "near cx xl"; cases "near cx x"; cases "near cx xr")
          (simp_all add: next_cell_def)
    qed
  next
    case 3
    then have e: "yu \<noteq> cy" "yd = cy" "y \<noteq> cy" using r(3,4) by simp_all
    show ?thesis
    proof (cases "x = cx")
      case True
      with c(1) have "near cx xl" "near cx x" "near cx xr" by simp_all
      with 3 e True show ?thesis
        unfolding h v by (simp add: next_cell_def)
    next
      case False
      with c(1) have "\<not> (near cx xl \<and> near cx x \<and> near cx xr)" by simp
      with 3 e False show ?thesis
        unfolding h v
        by (cases "near cx xl"; cases "near cx x"; cases "near cx xr")
          (simp_all add: next_cell_def)
    qed
  next
    case 4
    then have "yu \<noteq> cy" "yd \<noteq> cy" using r(3,4) by simp_all
    with 4 show ?thesis
      unfolding h v by (simp add: next_cell_def)
  qed
qed


lemma core_v:
  fixes W H :: int
  assumes "4 \<le> W" "4 \<le> H" "1 \<le> cx" "cx + 1 < W" "1 \<le> cy" "cy + 1 < H"
    "0 \<le> x" "x < W" "0 \<le> y" "y < H"
    and xl: "xl = (if x = 0 then W - 1 else x - 1)"
    and xr: "xr = (if x = W - 1 then 0 else x + 1)"
    and yu: "yu = (if y = 0 then H - 1 else y - 1)"
    and yd: "yd = (if y = H - 1 then 0 else y + 1)"
  shows "next_cell (of_bool (in_blinker_v cx cy x y))
     (of_bool (in_blinker_v cx cy xl yu) + of_bool (in_blinker_v cx cy x yu) +
      of_bool (in_blinker_v cx cy xr yu) + of_bool (in_blinker_v cx cy xl y) +
      of_bool (in_blinker_v cx cy xr y) + of_bool (in_blinker_v cx cy xl yd) +
      of_bool (in_blinker_v cx cy x yd) + of_bool (in_blinker_v cx cy xr yd))
    = of_bool (in_blinker_h cx cy x y)"
proof -
  note c = run3 [OF assms(1,3,4,7,8) xl xr]
  note r = run3 [OF assms(2,5,6,9,10) yu yd]
  have v: "in_blinker_v cx cy u w = (u = cx \<and> near cy w)" for u w
    by (simp add: in_blinker_v_def near_def)
  have h: "in_blinker_h cx cy x y = (y = cy \<and> (x = cx - 1 \<or> x = cx \<or> x = cx + 1))"
    unfolding in_blinker_h_def by auto
  consider "x = cx" | "x = cx + 1" | "x = cx - 1" | "x \<noteq> cx" "x \<noteq> cx + 1" "x \<noteq> cx - 1"
    by blast
  then show ?thesis
  proof cases
    case 1
    then have e: "xl \<noteq> cx" "xr \<noteq> cx" using c(3,4) by simp_all
    consider "y = cy" | "y = cy - 1 \<or> y = cy + 1" | "\<not> near cy y" using r(5) by blast
    then show ?thesis
    proof cases
      case 1
      with r(1) have "near cy yu" "near cy y" "near cy yd" by simp_all
      with \<open>x = cx\<close> e 1 show ?thesis
        unfolding h v by (simp add: next_cell_def)
    next
      case 2
      with r(2,5) have n: "near cy y" "near cy yu \<longleftrightarrow> \<not> near cy yd" by blast+
      from 2 have "y \<noteq> cy" by auto
      with \<open>x = cx\<close> e n show ?thesis
        unfolding h v by (cases "near cy yd") (simp_all add: next_cell_def)
    next
      case 3
      with r(5) have "y \<noteq> cy" by simp
      with \<open>x = cx\<close> e 3 show ?thesis
        unfolding h v by (cases "near cy yu"; cases "near cy yd") (simp_all add: next_cell_def)
    qed
  next
    case 2
    then have e: "xl = cx" "xr \<noteq> cx" "x \<noteq> cx" using c(3,4) by simp_all
    show ?thesis
    proof (cases "y = cy")
      case True
      with r(1) have "near cy yu" "near cy y" "near cy yd" by simp_all
      with 2 e True show ?thesis
        unfolding h v by (simp add: next_cell_def)
    next
      case False
      with r(1) have "\<not> (near cy yu \<and> near cy y \<and> near cy yd)" by simp
      with 2 e False show ?thesis
        unfolding h v
        by (cases "near cy yu"; cases "near cy y"; cases "near cy yd")
          (simp_all add: next_cell_def)
    qed
  next
    case 3
    then have e: "xl \<noteq> cx" "xr = cx" "x \<noteq> cx" using c(3,4) by simp_all
    show ?thesis
    proof (cases "y = cy")
      case True
      with r(1) have "near cy yu" "near cy y" "near cy yd" by simp_all
      with 3 e True show ?thesis
        unfolding h v by (simp add: next_cell_def)
    next
      case False
      with r(1) have "\<not> (near cy yu \<and> near cy y \<and> near cy yd)" by simp
      with 3 e False show ?thesis
        unfolding h v
        by (cases "near cy yu"; cases "near cy y"; cases "near cy yd")
          (simp_all add: next_cell_def)
    qed
  next
    case 4
    then have "xl \<noteq> cx" "xr \<noteq> cx" using c(3,4) by simp_all
    with 4 show ?thesis
      unfolding h v by (simp add: next_cell_def)
  qed
qed


lemma wrap_dec: "0 \<le> x \<Longrightarrow> x < n \<Longrightarrow> (x - 1 + n) mod n = (if x = 0 then n - 1 else x - (1::int))"
  by (auto simp: zmod_minus1)

lemma wrap_inc: "0 \<le> x \<Longrightarrow> x < n \<Longrightarrow> (x + 1) mod n = (if x = n - 1 then 0 else x + (1::int))"
  by auto

lemma wrap_bounds:
  fixes n :: int
  assumes "0 \<le> x" "x < n"
  shows "0 \<le> (if x = 0 then n - 1 else x - 1)" "(if x = 0 then n - 1 else x - 1) < n"
    "0 \<le> (if x = n - 1 then 0 else x + 1)" "(if x = n - 1 then 0 else x + 1) < n"
  using assms by auto

lemma pattern_length: "0 \<le> W * H \<Longrightarrow> int (length (pattern W H P)) = W * H"
  by (simp add: pattern_def)

lemma cell_at_pattern:
  assumes "0 < W" "0 \<le> u" "u < W" "0 \<le> v" "v < H"
  shows "cell_at W (pattern W H P) (u, v) = of_bool (P u v)"
proof -
  have lt: "nat (v * W + u) < nat (W * H)"
    using idx_bound [OF assms(2-5)] by linarith
  have i: "int (nat (v * W + u)) = v * W + u"
    using assms by simp
  have m: "(v * W + u) mod W = u" "(v * W + u) div W = v"
    using assms by simp_all
  have "pattern W H P ! nat (v * W + u)
      = of_bool (P (int (nat (v * W + u)) mod W) (int (nat (v * W + u)) div W))"
    using lt by (simp add: pattern_def)
  then show ?thesis
    by (simp only: i m cell_at_def fst_conv snd_conv)
qed

lemma gen_next_pattern:
  assumes W: "0 < W" and H: "0 < H"
    and step: "\<And>x y. 0 \<le> x \<Longrightarrow> x < W \<Longrightarrow> 0 \<le> y \<Longrightarrow> y < H \<Longrightarrow>
      next_cell (of_bool (P x y))
       (of_bool (P (if x = 0 then W - 1 else x - 1) (if y = 0 then H - 1 else y - 1)) +
        of_bool (P x (if y = 0 then H - 1 else y - 1)) +
        of_bool (P (if x = W - 1 then 0 else x + 1) (if y = 0 then H - 1 else y - 1)) +
        of_bool (P (if x = 0 then W - 1 else x - 1) y) +
        of_bool (P (if x = W - 1 then 0 else x + 1) y) +
        of_bool (P (if x = 0 then W - 1 else x - 1) (if y = H - 1 then 0 else y + 1)) +
        of_bool (P x (if y = H - 1 then 0 else y + 1)) +
        of_bool (P (if x = W - 1 then 0 else x + 1) (if y = H - 1 then 0 else y + 1)))
      = of_bool (Q x y)"
  shows "gen_next W H (pattern W H P) = pattern W H Q"
proof (rule nth_equalityI)
  show "length (gen_next W H (pattern W H P)) = length (pattern W H Q)"
    by (simp add: gen_next_length pattern_def)
next
  fix i assume "i < length (gen_next W H (pattern W H P))"
  then have i: "int i < W * H" and i': "i < nat (W * H)"
    by (simp_all add: gen_next_length pattern_def)
  let ?x = "int i mod W" and ?y = "int i div W"
  note s = index_split [OF W i]
  have len: "int (length (pattern W H P)) = W * H"
    using W H by (simp add: pattern_length)
  define xl xr yu yd where "xl = (if ?x = 0 then W - 1 else ?x - 1)"
    and "xr = (if ?x = W - 1 then 0 else ?x + 1)"
    and "yu = (if ?y = 0 then H - 1 else ?y - 1)"
    and "yd = (if ?y = H - 1 then 0 else ?y + 1)"
  have b: "0 \<le> xl" "xl < W" "0 \<le> xr" "xr < W" "0 \<le> yu" "yu < H" "0 \<le> yd" "yd < H"
    unfolding xl_def xr_def yu_def yd_def
    using wrap_bounds [OF s(1,2)] wrap_bounds [OF s(3,4)] by blast+
  have nc: "neighbor_coords W H ?x ?y
      = [(xl, yu), (?x, yu), (xr, yu), (xl, ?y), (xr, ?y), (xl, yd), (?x, yd), (xr, yd)]"
    unfolding neighbor_coords_def Let_def
      wrap_dec [OF s(1,2)] wrap_inc [OF s(1,2)] wrap_dec [OF s(3,4)] wrap_inc [OF s(3,4)]
      xl_def xr_def yu_def yd_def ..
  have ns: "neighbor_sum W H (pattern W H P) ?x ?y =
      of_bool (P xl yu) + of_bool (P ?x yu) + of_bool (P xr yu) + of_bool (P xl ?y) +
      of_bool (P xr ?y) + of_bool (P xl yd) + of_bool (P ?x yd) + of_bool (P xr yd)"
    unfolding neighbor_sum_def nc
    by (simp add: cell_at_pattern [OF W] b s(1-4))
  have "gen_next W H (pattern W H P) ! nat (?y * W + ?x)
      = next_cell (pattern W H P ! nat (?y * W + ?x)) (neighbor_sum W H (pattern W H P) ?x ?y)"
    by (rule gen_next_nth [OF W len s(1-4)])
  also have "pattern W H P ! nat (?y * W + ?x) = of_bool (P ?x ?y)"
    using cell_at_pattern [OF W s(1-4), of P] by (simp only: cell_at_def fst_conv snd_conv)
  also have "next_cell (of_bool (P ?x ?y)) (neighbor_sum W H (pattern W H P) ?x ?y)
      = of_bool (Q ?x ?y)"
    unfolding ns xl_def xr_def yu_def yd_def by (rule step [OF s(1-4)])
  finally have "gen_next W H (pattern W H P) ! i = of_bool (Q ?x ?y)"
    by (simp only: s(5))
  then show "gen_next W H (pattern W H P) ! i = pattern W H Q ! i"
    using i' by (simp add: pattern_def)
qed

lemma gen_next_blinker_h:
  assumes "4 \<le> W" "4 \<le> H" "1 \<le> cx" "cx + 1 < W" "1 \<le> cy" "cy + 1 < H"
  shows "gen_next W H (blinker_h W H cx cy) = blinker_v W H cx cy"
  unfolding blinker_h_def blinker_v_def
proof (rule gen_next_pattern)
  show "0 < W" "0 < H" using assms by simp_all
qed (rule core_h [OF assms _ _ _ _ refl refl refl refl])

lemma gen_next_blinker_v:
  assumes "4 \<le> W" "4 \<le> H" "1 \<le> cx" "cx + 1 < W" "1 \<le> cy" "cy + 1 < H"
  shows "gen_next W H (blinker_v W H cx cy) = blinker_h W H cx cy"
  unfolding blinker_h_def blinker_v_def
proof (rule gen_next_pattern)
  show "0 < W" "0 < H" using assms by simp_all
qed (rule core_v [OF assms _ _ _ _ refl refl refl refl])

text \<open>
  Claim C7. On a grid of at least 4 by 4 cells that is dead except for a horizontal line
  of three live cells which does not cross an edge, one update leaves exactly the vertical
  line of three through the same centre alive, and a second update gives back exactly the
  horizontal line.
\<close>

theorem blinker_period_2:
  assumes "4 \<le> W" "4 \<le> H" "1 \<le> cx" "cx + 1 < W" "1 \<le> cy" "cy + 1 < H"
    and "size_ok W H st" "currentGen st = blinker_h W H cx cy"
  shows "\<exists>s1 s2. UpdateGameOfLife W H st = Some s1 \<and> currentGen s1 = blinker_v W H cx cy \<and>
           UpdateGameOfLife W H s1 = Some s2 \<and> currentGen s2 = blinker_h W H cx cy"
proof -
  let ?s1 = "\<lparr>currentGen = blinker_v W H cx cy, nextGen = blinker_v W H cx cy,
      pixels = map cell_color (blinker_v W H cx cy)\<rparr>"
  have u1: "UpdateGameOfLife W H st = Some ?s1"
    using assms(7,8) by (simp add: UpdateGameOfLife_eq gen_next_blinker_h [OF assms(1-6)])
  have "0 \<le> W * H" using assms(1,2) by simp
  then have "size_ok W H ?s1"
    using assms(1,2) by (simp add: size_ok_def blinker_v_def pattern_def)
  then have "UpdateGameOfLife W H ?s1 =
      Some \<lparr>currentGen = blinker_h W H cx cy, nextGen = blinker_h W H cx cy,
        pixels = map cell_color (blinker_h W H cx cy)\<rparr>"
    by (simp add: UpdateGameOfLife_eq gen_next_blinker_v [OF assms(1-6)])
  with u1 show ?thesis by simp
qed

text \<open>
  The blinker centred on the 10 by 10 grid, cells 54, 55, 56, then 45, 55, 65, then
  54, 55, 56 again; and the blinker centred on the program's 100 by 100 grid.
\<close>

theorem blinker_period_2_witness:
  "live_cells (blinker_h 10 10 5 5) = [54, 55, 56] \<and>
   (\<exists>s1 s2. UpdateGameOfLife 10 10 ((globals 10 10)\<lparr>currentGen := blinker_h 10 10 5 5\<rparr>)
        = Some s1 \<and> live_cells (currentGen s1) = [45, 55, 65] \<and>
      UpdateGameOfLife 10 10 s1 = Some s2 \<and> live_cells (currentGen s2) = [54, 55, 56]) \<and>
   (\<exists>s1 s2. UpdateGameOfLife GRID_WIDTH GRID_HEIGHT
        ((globals GRID_WIDTH GRID_HEIGHT)\<lparr>currentGen := blinker_h GRID_WIDTH GRID_HEIGHT 50 50\<rparr>)
        = Some s1 \<and> currentGen s1 = blinker_v GRID_WIDTH GRID_HEIGHT 50 50 \<and>
      UpdateGameOfLife GRID_WIDTH GRID_HEIGHT s1 = Some s2 \<and>
      currentGen s2 = blinker_h GRID_WIDTH GRID_HEIGHT 50 50)"
proof -
  have h: "live_cells (blinker_h 10 10 5 5) = [54, 55, 56]" by code_simp
  have v: "live_cells (blinker_v 10 10 5 5) = [45, 55, 65]" by code_simp
  have ok10: "size_ok 10 10 ((globals 10 10)\<lparr>currentGen := blinker_h 10 10 5 5\<rparr>)"
    by (simp add: size_ok_def globals_def blinker_h_def pattern_def)
  have ok100: "size_ok 100 100 ((globals 100 100)\<lparr>currentGen := blinker_h 100 100 50 50\<rparr>)"
    by (simp add: size_ok_def globals_def blinker_h_def pattern_def)
  from blinker_period_2 [OF _ _ _ _ _ _ ok10, of 5 5]
  obtain s1 s2 where
    "UpdateGameOfLife 10 10 ((globals 10 10)\<lparr>currentGen := blinker_h 10 10 5 5\<rparr>) = Some s1"
    "currentGen s1 = blinker_v 10 10 5 5" "UpdateGameOfLife 10 10 s1 = Some s2"
    "currentGen s2 = blinker_h 10 10 5 5"
    by auto
  with h v have small:
    "\<exists>s1 s2. UpdateGameOfLife 10 10 ((globals 10 10)\<lparr>currentGen := blinker_h 10 10 5 5\<rparr>)
        = Some s1 \<and> live_cells (currentGen s1) = [45, 55, 65] \<and>
      UpdateGameOfLife 10 10 s1 = Some s2 \<and> live_cells (currentGen s2) = [54, 55, 56]"
    by auto
  from blinker_period_2 [OF _ _ _ _ _ _ ok100, of 50 50]
  have "\<exists>s1 s2. UpdateGameOfLife 100 100
        ((globals 100 100)\<lparr>currentGen := blinker_h 100 100 50 50\<rparr>)
        = Some s1 \<and> currentGen s1 = blinker_v 100 100 50 50 \<and>
      UpdateGameOfLife 100 100 s1 = Some s2 \<and> currentGen s2 = blinker_h 100 100 50 50"
    by simp
  with h small show ?thesis
    by (simp only: GRID_WIDTH_def GRID_HEIGHT_def)
qed

section \<open>Start-up and the dimensions\<close>







end
